theory Spec2Isabelle
  imports Complex_Main "HOL-Library.Char_ord" "HOL-Library.List_Lexorder" "HOL-Library.Multiset"
begin

section \<open>Python primitives used by the catalogue service\<close>

text \<open>
  A Python \<open>str\<close> is modelled as a \<open>string\<close> whose characters are the code points
  0..255. On these code points \<open>str.isspace\<close>, \<open>str.lower\<close> and the comparison of
  strings act character by character, as defined below; the order on strings is the
  lexicographic order on code points (\<open>Char_ord\<close>, \<open>List_Lexorder\<close>).
\<close>

definition isspace :: "char \<Rightarrow> bool" where
  "isspace c = (let n = (of_char c :: nat) in
     (9 \<le> n \<and> n \<le> 13) \<or> (28 \<le> n \<and> n \<le> 32) \<or> n = 133 \<or> n = 160)"

definition lower_char :: "char \<Rightarrow> char" where
  "lower_char c = (let n = (of_char c :: nat) in
     if (65 \<le> n \<and> n \<le> 90) \<or> (192 \<le> n \<and> n \<le> 222 \<and> n \<noteq> 215)
     then char_of (n + 32) else c)"

definition lower :: "string \<Rightarrow> string" where
  "lower s = map lower_char s"

text \<open>\<open>strip_with ws s\<close>: \<open>s\<close> without its leading and trailing characters of class \<open>ws\<close>.\<close>

definition strip_with :: "(char \<Rightarrow> bool) \<Rightarrow> string \<Rightarrow> string" where
  "strip_with ws s = rev (dropWhile ws (rev (dropWhile ws s)))"

definition strip :: "string \<Rightarrow> string" where
  "strip s = strip_with isspace s"

text \<open>\<open>startswith s p\<close>: \<open>s.startswith(p)\<close>.\<close>

fun startswith :: "'a list \<Rightarrow> 'a list \<Rightarrow> bool" where
  "startswith s [] = True"
| "startswith [] (p # ps) = False"
| "startswith (c # cs) (p # ps) = (c = p \<and> startswith cs ps)"

text \<open>\<open>str_in needle haystack\<close>: the substring test \<open>needle in haystack\<close>.\<close>

fun str_in :: "'a list \<Rightarrow> 'a list \<Rightarrow> bool" where
  "str_in needle [] = (needle = [])"
| "str_in needle (c # cs) = (startswith (c # cs) needle \<or> str_in needle cs)"

text \<open>
  \<open>xs[start:stop]\<close> with step 1: a negative index counts from the end, and both
  indices are clamped to the bounds of the list, so a slice never raises.
\<close>

definition py_slice :: "'a list \<Rightarrow> int \<Rightarrow> int \<Rightarrow> 'a list" where
  "py_slice xs start stop =
     (let n = int (length xs);
          lo = (if start < 0 then max (start + n) 0 else min start n);
          hi = (if stop < 0 then max (stop + n) 0 else min stop n)
      in take (nat (hi - lo)) (drop (nat lo) xs))"

text \<open>
  \<open>xs.sort(key=key, reverse=reverse)\<close>: the sort is stable; with \<open>reverse=True\<close> the
  list is reversed, sorted stably and reversed again, so that elements with equal keys
  keep their original relative order in both directions. A stable sort has one possible
  result (lemma \<open>stable_sort_unique\<close> below), which \<open>sort_key\<close> computes.
\<close>

definition list_sort :: "('a \<Rightarrow> 'k::linorder) \<Rightarrow> bool \<Rightarrow> 'a list \<Rightarrow> 'a list" where
  "list_sort key reverse xs =
     (if reverse then rev (sort_key key (rev xs)) else sort_key key xs)"

text \<open>
  A \<open>dict\<close> keeps its items in insertion order: assigning to a new key appends the
  item, assigning to a key already present replaces the value in place, \<open>del\<close> removes
  the item. It is modelled as an association list.
\<close>

type_synonym ('k, 'v) dict = "('k \<times> 'v) list"

datatype error = ValidationError | KeyError

fun dict_set :: "'k \<Rightarrow> 'v \<Rightarrow> ('k, 'v) dict \<Rightarrow> ('k, 'v) dict" where
  "dict_set k v [] = [(k, v)]"
| "dict_set k v ((k', v') # d) =
     (if k' = k then (k, v) # d else (k', v') # dict_set k v d)"

definition dict_get :: "('k, 'v) dict \<Rightarrow> 'k \<Rightarrow> 'v option" where
  "dict_get d k = map_of d k"

definition dict_contains :: "'k \<Rightarrow> ('k, 'v) dict \<Rightarrow> bool" where
  "dict_contains k d = (map_of d k \<noteq> None)"

text \<open>\<open>del d[k]\<close> raises \<open>KeyError\<close> when the key is absent.\<close>

definition dict_del :: "'k \<Rightarrow> ('k, 'v) dict \<Rightarrow> error + ('k, 'v) dict" where
  "dict_del k d =
     (if dict_contains k d then Inr (filter (\<lambda>kv. fst kv \<noteq> k) d) else Inl KeyError)"

definition dict_values :: "('k, 'v) dict \<Rightarrow> 'v list" where
  "dict_values d = map snd d"

section \<open>app/utils/common_utils.py\<close>

text \<open>\<open>return value.strip().lower() if value else ""\<close>\<close>

definition normalize_string :: "string \<Rightarrow> string" where
  "normalize_string v = (if v \<noteq> [] then lower (strip v) else [])"

section \<open>app/models/book.py\<close>

text \<open>
  The field \<open>id\<close> of \<open>BookResponse\<close> is written \<open>id'\<close>. The fields \<open>author\<close> and
  \<open>year\<close> of \<open>BookFilters\<close> are written \<open>author_filter\<close> and \<open>year_filter\<close>, the fields
  \<open>page\<close> and \<open>limit\<close> of \<open>PaginatedResponse\<close> are written \<open>page_no\<close> and \<open>page_limit\<close>,
  since a field name is a constant of its own.
\<close>

record BookCreate =
  title :: string
  author :: string
  year :: int
  tags :: "string list option"

record BookResponse = BookCreate +
  id' :: int

record BookFilters =
  author_filter :: "string option"
  year_filter :: "int option"
  search :: "string option"
  sort_by :: "string option"
  sort_order :: "string option"
  page :: int
  limit :: int

record 'a PaginatedResponse =
  items :: "'a list"
  total :: int
  page_no :: int
  page_limit :: int
  has_next :: bool
  has_prev :: bool

record StatsResponse =
  total_books :: int
  unique_authors :: int

text \<open>
  Constructing a \<open>PaginatedResponse\<close> validates the declared bounds of its fields
  (\<open>total \<ge> 0\<close>, \<open>page \<ge> 1\<close>, \<open>limit \<ge> 1\<close>) and raises a validation error otherwise.
\<close>

definition new_PaginatedResponse ::
  "'a list \<Rightarrow> int \<Rightarrow> int \<Rightarrow> int \<Rightarrow> bool \<Rightarrow> bool \<Rightarrow> error + 'a PaginatedResponse" where
  "new_PaginatedResponse its tot pg lmt hn hp =
     (if 0 \<le> tot \<and> 1 \<le> pg \<and> 1 \<le> lmt
      then Inr \<lparr>items = its, total = tot, page_no = pg, page_limit = lmt,
                has_next = hn, has_prev = hp\<rparr>
      else Inl ValidationError)"

text \<open>
  Constructing a \<open>BookFilters\<close> strips the whitespace around its string fields
  (\<open>str_strip_whitespace\<close>), then checks the patterns of \<open>sort_by\<close> and \<open>sort_order\<close>
  and the bounds of \<open>page\<close> and \<open>limit\<close>. The whitespace class \<open>ws\<close> of the validation
  library is a parameter.
\<close>

definition new_BookFilters ::
  "(char \<Rightarrow> bool) \<Rightarrow> string option \<Rightarrow> int option \<Rightarrow> string option \<Rightarrow> string option \<Rightarrow>
   string option \<Rightarrow> int \<Rightarrow> int \<Rightarrow> error + BookFilters" where
  "new_BookFilters ws a y s sb so pg lmt =
     (let a' = map_option (strip_with ws) a;
          s' = map_option (strip_with ws) s;
          sb' = map_option (strip_with ws) sb;
          so' = map_option (strip_with ws) so
      in if (case sb' of None \<Rightarrow> True | Some v \<Rightarrow> v = ''year'' \<or> v = ''author'')
            \<and> (case so' of None \<Rightarrow> True | Some v \<Rightarrow> v = ''asc'' \<or> v = ''desc'')
            \<and> 1 \<le> pg \<and> 1 \<le> lmt \<and> lmt \<le> 100
         then Inr \<lparr>author_filter = a', year_filter = y, search = s', sort_by = sb',
                   sort_order = so', page = pg, limit = lmt\<rparr>
         else Inl ValidationError)"

section \<open>app/services/pagination_service.py\<close>

definition paginate :: "'a list \<Rightarrow> int \<Rightarrow> int \<Rightarrow> error + 'a PaginatedResponse" where
  "paginate its pg lmt =
     (let tot = int (length its);
          start_idx = (pg - 1) * lmt;
          end_idx = start_idx + lmt
      in new_PaginatedResponse (py_slice its start_idx end_idx) tot pg lmt
           (pg * lmt < tot) (pg > 1))"

section \<open>app/repositories/book_repository.py\<close>

record InMemoryBookRepository =
  books :: "(int, BookResponse) dict"
  next_id :: int

definition init_repository :: InMemoryBookRepository where
  "init_repository = \<lparr>books = [], next_id = 1\<rparr>"

fun load_initial_books :: "BookResponse list \<Rightarrow> InMemoryBookRepository \<Rightarrow> InMemoryBookRepository" where
  "load_initial_books [] s = s"
| "load_initial_books (book # rest) s =
     load_initial_books rest
       (s\<lparr>books := dict_set (id' book) book (books s),
          next_id := max (next_id s) (id' book + 1)\<rparr>)"

definition create_book ::
  "BookCreate \<Rightarrow> InMemoryBookRepository \<Rightarrow> BookResponse \<times> InMemoryBookRepository" where
  "create_book book_data s =
     (let book_id = next_id s;
          s1 = s\<lparr>next_id := next_id s + 1\<rparr>;
          book = \<lparr>title = title book_data, author = author book_data,
                  year = year book_data,
                  tags = Some (case tags book_data of None \<Rightarrow> []
                               | Some ts \<Rightarrow> if ts \<noteq> [] then ts else []),
                  id' = book_id\<rparr>
      in (book, s1\<lparr>books := dict_set book_id book (books s1)\<rparr>))"

definition get_book :: "int \<Rightarrow> InMemoryBookRepository \<Rightarrow> BookResponse option" where
  "get_book book_id s = dict_get (books s) book_id"

definition delete_book ::
  "int \<Rightarrow> InMemoryBookRepository \<Rightarrow> error + (bool \<times> InMemoryBookRepository)" where
  "delete_book book_id s =
     (if dict_contains book_id (books s)
      then (case dict_del book_id (books s) of
              Inl e \<Rightarrow> Inl e
            | Inr d \<Rightarrow> Inr (True, s\<lparr>books := d\<rparr>))
      else Inr (False, s))"

text \<open>The three filters of \<open>get_books\<close>, each applied only when its field is truthy.\<close>

definition filter_by_author :: "string option \<Rightarrow> BookResponse list \<Rightarrow> BookResponse list" where
  "filter_by_author a bs =
     (case a of
        None \<Rightarrow> bs
      | Some v \<Rightarrow>
          if v \<noteq> [] then
            (let author_normalized = normalize_string v
             in filter (\<lambda>book. str_in author_normalized (normalize_string (author book))) bs)
          else bs)"

definition filter_by_year :: "int option \<Rightarrow> BookResponse list \<Rightarrow> BookResponse list" where
  "filter_by_year y bs =
     (case y of
        None \<Rightarrow> bs
      | Some v \<Rightarrow> if v \<noteq> 0 then filter (\<lambda>book. year book = v) bs else bs)"

definition filter_by_search :: "string option \<Rightarrow> BookResponse list \<Rightarrow> BookResponse list" where
  "filter_by_search q bs =
     (case q of
        None \<Rightarrow> bs
      | Some v \<Rightarrow>
          if v \<noteq> [] then
            (let search_normalized = normalize_string v
             in filter (\<lambda>book. str_in search_normalized (normalize_string (title book))) bs)
          else bs)"

definition apply_sorting :: "string option \<Rightarrow> string option \<Rightarrow> BookResponse list \<Rightarrow> BookResponse list" where
  "apply_sorting sb so bs =
     (case sb of
        None \<Rightarrow> bs
      | Some v \<Rightarrow>
          if v \<noteq> [] then
            (let reverse = (so = Some ''desc'')
             in if v = ''year'' then list_sort (\<lambda>x. year x) reverse bs
                else if v = ''author'' then list_sort (\<lambda>x. normalize_string (author x)) reverse bs
                else bs)
          else bs)"

text \<open>The list that \<open>get_books\<close> hands to the pagination service.\<close>

definition filtered_books :: "BookFilters \<Rightarrow> InMemoryBookRepository \<Rightarrow> BookResponse list" where
  "filtered_books filters s =
     filter_by_search (search filters)
       (filter_by_year (year_filter filters)
         (filter_by_author (author_filter filters) (dict_values (books s))))"

definition sorted_books :: "BookFilters \<Rightarrow> InMemoryBookRepository \<Rightarrow> BookResponse list" where
  "sorted_books filters s =
     apply_sorting (sort_by filters) (sort_order filters) (filtered_books filters s)"

definition get_books ::
  "BookFilters \<Rightarrow> InMemoryBookRepository \<Rightarrow> error + BookResponse PaginatedResponse" where
  "get_books filters s = paginate (sorted_books filters s) (page filters) (limit filters)"

definition get_stats :: "InMemoryBookRepository \<Rightarrow> StatsResponse" where
  "get_stats s =
     \<lparr>total_books = int (length (books s)),
      unique_authors = int (card (set (map author (dict_values (books s)))))\<rparr>"

section \<open>app/utils/data_loader.py\<close>

text \<open>\<open>with_id i b\<close>: \<open>BookResponse(id=i, **b.model_dump())\<close>.\<close>

definition with_id :: "int \<Rightarrow> BookCreate \<Rightarrow> BookResponse" where
  "with_id i b = \<lparr>title = title b, author = author b, year = year b, tags = tags b, id' = i\<rparr>"

text \<open>\<open>_assign_ids\<close>: the validated books of the JSON file get the ids 1, 2, \<dots> in file order.\<close>

definition assign_ids :: "BookCreate list \<Rightarrow> BookResponse list" where
  "assign_ids bs = map (\<lambda>(idx, book). with_id idx book) (zip [1..int (length bs)] bs)"

section \<open>app/routers/books.py\<close>

text \<open>
  The route \<open>get_books\<close>: the framework constructs the \<open>BookFilters\<close> from the query
  parameters, then the handler queries the repository.
\<close>

definition router_get_books ::
  "(char \<Rightarrow> bool) \<Rightarrow> string option \<Rightarrow> int option \<Rightarrow> string option \<Rightarrow> string option \<Rightarrow>
   string option \<Rightarrow> int \<Rightarrow> int \<Rightarrow> InMemoryBookRepository \<Rightarrow>
   error + BookResponse PaginatedResponse" where
  "router_get_books ws a y q sb so pg lmt repository =
     (case new_BookFilters ws a y q sb so pg lmt of
        Inl e \<Rightarrow> Inl e
      | Inr filters \<Rightarrow> get_books filters repository)"

section \<open>Sequences of calls and reachable states\<close>

text \<open>
  A client's calls to the store after start-up: \<open>create_book\<close> and \<open>delete_book\<close> in
  any order. \<open>run_ops\<close> performs them in turn and collects the ids of the books that the
  calls of \<open>create_book\<close> return; a fault raised by a call would end the run.
\<close>

datatype op = Create BookCreate | Delete int

fun run_ops :: "op list \<Rightarrow> InMemoryBookRepository \<Rightarrow> error + (int list \<times> InMemoryBookRepository)" where
  "run_ops [] s = Inr ([], s)"
| "run_ops (Create book_data # ops) s =
     (case create_book book_data s of
        (book, s1) \<Rightarrow>
          (case run_ops ops s1 of
             Inl e \<Rightarrow> Inl e
           | Inr (ids, s2) \<Rightarrow> Inr (id' book # ids, s2)))"
| "run_ops (Delete book_id # ops) s =
     (case delete_book book_id s of
        Inl e \<Rightarrow> Inl e
      | Inr (_, s1) \<Rightarrow> run_ops ops s1)"

fun count_creates :: "op list \<Rightarrow> nat" where
  "count_creates [] = 0"
| "count_creates (Create _ # ops) = Suc (count_creates ops)"
| "count_creates (Delete _ # ops) = count_creates ops"

text \<open>
  The states the store reaches from \<open>init_repository\<close>: every record is stored once, under
  its own id, and every id in use is below the counter.
\<close>

definition repo_inv :: "InMemoryBookRepository \<Rightarrow> bool" where
  "repo_inv s =
     (distinct (map fst (books s))
      \<and> list_all (\<lambda>kv. fst kv < next_id s \<and> id' (snd kv) = fst kv) (books s))"

section \<open>Sample data\<close>

definition clean_code :: BookCreate where
  "clean_code = \<lparr>title = ''Clean Code'', author = ''Robert C. Martin'', year = 2008,
                 tags = Some [''programming'']\<rparr>"

definition clean_coder :: BookCreate where
  "clean_coder = \<lparr>title = ''The Clean Coder'', author = ''ROBERT C. MARTIN'', year = 2011,
                  tags = None\<rparr>"

definition refactoring :: BookCreate where
  "refactoring = \<lparr>title = ''Refactoring'', author = ''Martin Fowler'', year = 2008,
                  tags = Some []\<rparr>"

definition sample_repository :: InMemoryBookRepository where
  "sample_repository =
     \<lparr>books = [(1, with_id 1 clean_code), (2, with_id 2 clean_coder), (3, with_id 3 refactoring)],
      next_id = 4\<rparr>"

text \<open>\<open>BookFilters(sort_by="year", sort_order=order)\<close>, the other fields at their defaults.\<close>

definition by_year :: "string \<Rightarrow> BookFilters" where
  "by_year order =
     \<lparr>author_filter = None, year_filter = None, search = None, sort_by = Some ''year'',
      sort_order = Some order, page = 1, limit = 10\<rparr>"

section \<open>The paginator\<close>

text \<open>For the indices the paginator computes, the slice is a \<open>drop\<close> followed by a \<open>take\<close>.\<close>

lemma py_slice_nonneg:
  assumes "0 \<le> a" "a \<le> b"
  shows "py_slice xs a b = take (nat (b - a)) (drop (nat a) xs)"
proof (cases "a < int (length xs)")
  case True
  show ?thesis
  proof (cases "b < int (length xs)")
    case True
    with assms \<open>a < int (length xs)\<close> show ?thesis
      by (simp add: py_slice_def Let_def min_def)
  next
    case False
    have "take (nat (int (length xs) - a)) (drop (nat a) xs) = drop (nat a) xs"
      using assms by simp
    moreover have "take (nat (b - a)) (drop (nat a) xs) = drop (nat a) xs"
      using assms False by simp
    ultimately show ?thesis
      using assms True False by (simp add: py_slice_def Let_def min_def)
  qed
next
  case False
  with assms show ?thesis
    by (simp add: py_slice_def Let_def min_def)
qed

lemma paginate_ok:
  assumes "1 \<le> pg" "1 \<le> lmt"
  shows "paginate xs pg lmt =
     Inr \<lparr>items = take (nat lmt) (drop (nat ((pg - 1) * lmt)) xs),
          total = int (length xs), page_no = pg, page_limit = lmt,
          has_next = (pg * lmt < int (length xs)), has_prev = (1 < pg)\<rparr>"
proof -
  have "0 \<le> (pg - 1) * lmt" using assms by simp
  moreover have "(pg - 1) * lmt \<le> (pg - 1) * lmt + lmt" using assms by simp
  ultimately have "py_slice xs ((pg - 1) * lmt) ((pg - 1) * lmt + lmt)
      = take (nat lmt) (drop (nat ((pg - 1) * lmt)) xs)"
    by (simp add: py_slice_nonneg)
  then show ?thesis
    using assms by (simp add: paginate_def new_PaginatedResponse_def Let_def)
qed

lemma ceil_pages_nonneg:
  assumes "1 \<le> lmt"
  shows "0 \<le> \<lceil>real (length xs) / real_of_int lmt\<rceil>"
proof -
  have "0 \<le> real (length xs) / real_of_int lmt"
    using assms by (intro divide_nonneg_nonneg) simp_all
  then show ?thesis by simp
qed

lemma beyond_last_page:
  assumes "1 \<le> lmt" "\<lceil>real (length xs) / real_of_int lmt\<rceil> < pg"
  shows "int (length xs) \<le> (pg - 1) * lmt"
proof -
  have pos: "0 < real_of_int lmt" using assms(1) by simp
  have "real (length xs) / real_of_int lmt \<le> real_of_int (pg - 1)"
    using assms(2) by (simp add: ceiling_less_iff)
  then have "real (length xs) \<le> real_of_int (pg - 1) * real_of_int lmt"
    by (simp only: pos_divide_le_eq [OF pos])
  then have "real_of_int (int (length xs)) \<le> real_of_int ((pg - 1) * lmt)"
    by simp
  then show ?thesis by (simp only: of_int_le_iff)
qed

lemma last_page_covers:
  assumes "1 \<le> lmt"
  shows "length xs \<le> nat \<lceil>real (length xs) / real_of_int lmt\<rceil> * nat lmt"
proof -
  let ?k = "\<lceil>real (length xs) / real_of_int lmt\<rceil>"
  have pos: "0 < real_of_int lmt" using assms by simp
  have "real (length xs) / real_of_int lmt \<le> real_of_int ?k" by (rule le_of_int_ceiling)
  then have "real (length xs) \<le> real_of_int ?k * real_of_int lmt"
    by (simp only: pos_divide_le_eq [OF pos])
  then have "real_of_int (int (length xs)) \<le> real_of_int (?k * lmt)" by simp
  then have le: "int (length xs) \<le> ?k * lmt" by (simp only: of_int_le_iff)
  have "0 \<le> ?k" using assms by (rule ceil_pages_nonneg)
  then have "int (nat ?k * nat lmt) = ?k * lmt" using assms by simp
  with le show ?thesis by linarith
qed

lemma concat_pages_take:
  assumes "1 \<le> lmt"
  shows "concat (map (\<lambda>p. take (nat lmt) (drop (nat ((p - 1) * lmt)) xs)) [1..int k])
         = take (k * nat lmt) xs"
proof (induction k)
  case 0
  show ?case by simp
next
  case (Suc k)
  have up: "[1..int (Suc k)] = [1..int k] @ [int k + 1]"
    by (simp add: upto_rec2 add.commute)
  have idx: "nat ((int k + 1 - 1) * lmt) = k * nat lmt"
    using assms by (simp add: nat_mult_distrib)
  have "Suc k * nat lmt = k * nat lmt + nat lmt" by simp
  then have "take (Suc k * nat lmt) xs = take (k * nat lmt) xs @ take (nat lmt) (drop (k * nat lmt) xs)"
    by (simp only: take_add)
  with Suc up idx show ?case by simp
qed

text \<open>
  Claim C3. For every sequence, every \<open>page \<ge> 1\<close> and every \<open>limit \<ge> 1\<close>, \<open>paginate\<close>
  returns (without an error) \<open>total\<close> = the length of the sequence, \<open>items\<close> = the slice
  from \<open>(page - 1) * limit\<close> of at most \<open>limit\<close> elements, clamped to the bounds,
  \<open>has_next = (page * limit < total)\<close> and \<open>has_prev = (page > 1)\<close>. In particular a page
  strictly beyond the last page \<open>\<lceil>total / limit\<rceil>\<close> returns empty \<open>items\<close>, the same \<open>total\<close>
  and \<open>has_next = False\<close>, and is not an error.
\<close>

theorem paginate_fields:
  assumes "1 \<le> pg" "1 \<le> lmt"
  shows "paginate xs pg lmt =
           Inr \<lparr>items = take (nat lmt) (drop (nat ((pg - 1) * lmt)) xs),
                total = int (length xs), page_no = pg, page_limit = lmt,
                has_next = (pg * lmt < int (length xs)), has_prev = (1 < pg)\<rparr>
         \<and> (\<lceil>real (length xs) / real_of_int lmt\<rceil> < pg \<longrightarrow>
              paginate xs pg lmt =
                Inr \<lparr>items = [], total = int (length xs), page_no = pg, page_limit = lmt,
                     has_next = False, has_prev = (1 < pg)\<rparr>)"
proof (intro conjI impI)
  show "paginate xs pg lmt =
           Inr \<lparr>items = take (nat lmt) (drop (nat ((pg - 1) * lmt)) xs),
                total = int (length xs), page_no = pg, page_limit = lmt,
                has_next = (pg * lmt < int (length xs)), has_prev = (1 < pg)\<rparr>"
    using assms by (rule paginate_ok)
next
  assume beyond: "\<lceil>real (length xs) / real_of_int lmt\<rceil> < pg"
  have le: "int (length xs) \<le> (pg - 1) * lmt"
    using assms(2) beyond by (rule beyond_last_page)
  then have "length xs \<le> nat ((pg - 1) * lmt)" by simp
  then have empty: "drop (nat ((pg - 1) * lmt)) xs = []" by simp
  have "(pg - 1) * lmt \<le> pg * lmt" using assms by (simp add: mult_right_mono)
  with le have nonext: "\<not> pg * lmt < int (length xs)" by simp
  from empty nonext show "paginate xs pg lmt =
                Inr \<lparr>items = [], total = int (length xs), page_no = pg, page_limit = lmt,
                     has_next = False, has_prev = (1 < pg)\<rparr>"
    using assms by (simp add: paginate_ok)
qed

theorem paginate_fields_witness:
  "(1::int) \<le> 5 \<and> (1::int) \<le> 3
   \<and> paginate [10, 20, 30, 40, 50, 60, 70, 80, 90, 100 :: nat] 5 3 =
       Inr \<lparr>items = [], total = 10, page_no = 5, page_limit = 3,
            has_next = False, has_prev = True\<rparr>
   \<and> paginate [10, 20, 30, 40, 50, 60, 70, 80, 90, 100 :: nat] 4 3 =
       Inr \<lparr>items = [100], total = 10, page_no = 4, page_limit = 3,
            has_next = False, has_prev = True\<rparr>"
  using paginate_fields [of 5 3 "[10, 20, 30, 40, 50, 60, 70, 80, 90, 100 :: nat]"]
        paginate_fields [of 4 3 "[10, 20, 30, 40, 50, 60, 70, 80, 90, 100 :: nat]"]
  by simp

text \<open>
  Claim C2. For every finite sequence and every \<open>limit \<ge> 1\<close>, the pages
  \<open>1, \<dots>, \<lceil>length / limit\<rceil>\<close> are all returned without an error, and the concatenation of
  their \<open>items\<close> in increasing page order is exactly the original sequence.
\<close>

theorem pagination_complete:
  assumes "1 \<le> lmt"
  shows "\<exists>rs. map (\<lambda>p. paginate xs p lmt) [1..\<lceil>real (length xs) / real_of_int lmt\<rceil>] = map Inr rs
              \<and> concat (map items rs) = xs"
proof -
  let ?k = "\<lceil>real (length xs) / real_of_int lmt\<rceil>"
  let ?r = "\<lambda>p. \<lparr>items = take (nat lmt) (drop (nat ((p - 1) * lmt)) xs),
                  total = int (length xs), page_no = p, page_limit = lmt,
                  has_next = (p * lmt < int (length xs)), has_prev = (1 < p)\<rparr>"
  have "0 \<le> ?k" using assms by (rule ceil_pages_nonneg)
  then have k: "int (nat ?k) = ?k" by simp
  have pages: "map (\<lambda>p. paginate xs p lmt) [1..?k] = map Inr (map ?r [1..?k])"
    using assms by (simp add: paginate_ok)
  have "concat (map items (map ?r [1..?k]))
        = concat (map (\<lambda>p. take (nat lmt) (drop (nat ((p - 1) * lmt)) xs)) [1..int (nat ?k)])"
    by (simp add: k comp_def)
  also have "\<dots> = take (nat ?k * nat lmt) xs"
    using assms by (rule concat_pages_take)
  also have "\<dots> = xs"
    using last_page_covers [OF assms, of xs] by simp
  finally show ?thesis using pages by blast
qed

theorem pagination_complete_witness:
  "(1::int) \<le> 2
   \<and> (\<exists>rs. map (\<lambda>p. paginate ''abcde'' p 2) [1..\<lceil>real (length ''abcde'') / real_of_int 2\<rceil>] = map Inr rs
              \<and> concat (map items rs) = ''abcde'')"
  using pagination_complete [of 2 "''abcde''"] by simp

section \<open>The record store\<close>

lemmas sample_defs = with_id_def clean_code_def clean_coder_def refactoring_def sample_repository_def

lemma map_of_dict_set: "map_of (dict_set k v d) = (map_of d)(k \<mapsto> v)"
  by (induction d) (auto simp: fun_eq_iff)

lemma map_of_filter_key: "map_of (filter (\<lambda>kv. fst kv \<noteq> k) d) = (map_of d)(k := None)"
  by (induction d) (auto simp: fun_eq_iff)

lemma dict_set_fresh: "k \<notin> set (map fst d) \<Longrightarrow> dict_set k v d = d @ [(k, v)]"
  by (induction d) auto

lemma keys_dict_set:
  "map fst (dict_set k v d) = (if k \<in> set (map fst d) then map fst d else map fst d @ [k])"
  by (induction d) force+

lemma distinct_dict_set: "distinct (map fst d) \<Longrightarrow> distinct (map fst (dict_set k v d))"
  by (simp add: keys_dict_set)

lemma in_dict_set: "kv \<in> set (dict_set k v d) \<Longrightarrow> kv = (k, v) \<or> kv \<in> set d"
  by (induction d) (auto split: if_splits)

lemma delete_book_eq:
  "delete_book i s =
     Inr (get_book i s \<noteq> None,
          if get_book i s \<noteq> None then s\<lparr>books := filter (\<lambda>kv. fst kv \<noteq> i) (books s)\<rparr> else s)"
  by (simp add: delete_book_def dict_del_def dict_contains_def get_book_def dict_get_def)

lemma filter_absent_key: "map_of d i = None \<Longrightarrow> filter (\<lambda>kv. fst kv \<noteq> i) d = d"
  by (induction d) (auto split: if_splits)

text \<open>
  Claim C7. For every store state and every id, \<open>delete_book\<close> raises no fault; it returns
  \<open>True\<close> and removes the record if and only if a record with that id is present, and
  \<open>False\<close> otherwise. In both cases the counter \<open>next_id\<close> and all other records (and
  their order) are unchanged, and afterwards no record has that id.
\<close>

theorem delete_book_total:
  "\<exists>s'. delete_book i s = Inr (get_book i s \<noteq> None, s')
        \<and> next_id s' = next_id s
        \<and> get_book i s' = None
        \<and> (\<forall>j. j \<noteq> i \<longrightarrow> get_book j s' = get_book j s)
        \<and> books s' = filter (\<lambda>kv. fst kv \<noteq> i) (books s)
        \<and> (get_book i s = None \<longrightarrow> s' = s)"
proof (cases "get_book i s = None")
  case True
  then have "filter (\<lambda>kv. fst kv \<noteq> i) (books s) = books s"
    by (simp add: get_book_def dict_get_def filter_absent_key)
  with True show ?thesis
    by (simp add: delete_book_eq)
next
  case False
  let ?s' = "s\<lparr>books := filter (\<lambda>kv. fst kv \<noteq> i) (books s)\<rparr>"
  have "delete_book i s = Inr (get_book i s \<noteq> None, ?s')"
    using False by (simp add: delete_book_eq)
  moreover have "get_book i ?s' = None"
    by (simp add: get_book_def dict_get_def map_of_filter_key)
  moreover have "\<forall>j. j \<noteq> i \<longrightarrow> get_book j ?s' = get_book j s"
    by (simp add: get_book_def dict_get_def map_of_filter_key)
  moreover have "get_book i s = None \<longrightarrow> ?s' = s"
    using False by blast
  ultimately show ?thesis by simp
qed

theorem delete_book_total_witness:
  "(\<exists>s'. delete_book 1 sample_repository = Inr (True, s')
         \<and> next_id s' = 4
         \<and> get_book 1 s' = None
         \<and> get_book 2 s' = Some (with_id 2 clean_coder)
         \<and> dict_values (books s') = [with_id 2 clean_coder, with_id 3 refactoring])
   \<and> delete_book 7 sample_repository = Inr (False, sample_repository)"
proof -
  have present: "(get_book 1 sample_repository \<noteq> None) = True"
    and absent: "get_book 7 sample_repository = None"
    and other: "get_book 2 sample_repository = Some (with_id 2 clean_coder)"
    by (simp_all add: get_book_def dict_get_def sample_repository_def)
  have rest: "map snd (filter (\<lambda>kv. fst kv \<noteq> 1) (books sample_repository))
               = [with_id 2 clean_coder, with_id 3 refactoring]"
    and n: "next_id sample_repository = 4"
    by (simp_all add: sample_repository_def)
  obtain s1 where s1: "delete_book 1 sample_repository = Inr (True, s1)"
      "next_id s1 = next_id sample_repository" "get_book 1 s1 = None"
      "\<forall>j. j \<noteq> 1 \<longrightarrow> get_book j s1 = get_book j sample_repository"
      "books s1 = filter (\<lambda>kv. fst kv \<noteq> 1) (books sample_repository)"
    using delete_book_total [of 1 sample_repository] unfolding present by blast
  have "get_book 2 s1 = get_book 2 sample_repository" using s1(4) by simp
  with s1 have first: "\<exists>s'. delete_book 1 sample_repository = Inr (True, s')
         \<and> next_id s' = 4
         \<and> get_book 1 s' = None
         \<and> get_book 2 s' = Some (with_id 2 clean_coder)
         \<and> dict_values (books s') = [with_id 2 clean_coder, with_id 3 refactoring]"
    by (simp add: n other rest dict_values_def)
  have "delete_book 7 sample_repository = Inr (False, sample_repository)"
    using delete_book_total [of 7 sample_repository] absent by auto
  with first show ?thesis by simp
qed

lemma repo_inv_init: "repo_inv init_repository"
  by (simp add: repo_inv_def init_repository_def)

lemma fresh_next_id:
  assumes "repo_inv s"
  shows "next_id s \<notin> set (map fst (books s))"
proof
  assume "next_id s \<in> set (map fst (books s))"
  then obtain kv where "kv \<in> set (books s)" "fst kv = next_id s" by auto
  moreover have "\<forall>kv\<in>set (books s). fst kv < next_id s"
    using assms by (simp add: repo_inv_def list_all_iff)
  ultimately show False by force
qed

lemma map_of_fresh: "k \<notin> set (map fst d) \<Longrightarrow> map_of d k = None"
  by (simp add: map_of_eq_None_iff)

text \<open>
  Claim C10. In every reachable store state, \<open>create_book\<close> returns a record with the
  fields of its input, absent \<open>tags\<close> replaced by the empty list, and the id \<open>next_id\<close>;
  \<open>get_book\<close> at that id then returns exactly this record. The id was not in use, so
  every record already in the store is unchanged, and the new record comes last.
\<close>

theorem create_book_get:
  assumes "repo_inv s"
  shows "\<exists>b s'. create_book book_data s = (b, s')
           \<and> get_book (id' b) s' = Some b
           \<and> b = \<lparr>title = title book_data, author = author book_data, year = year book_data,
                  tags = Some (case tags book_data of None \<Rightarrow> [] | Some ts \<Rightarrow> ts),
                  id' = next_id s\<rparr>
           \<and> get_book (id' b) s = None
           \<and> (\<forall>j. j \<noteq> id' b \<longrightarrow> get_book j s' = get_book j s)
           \<and> books s' = books s @ [(id' b, b)]"
proof -
  let ?b = "\<lparr>title = title book_data, author = author book_data, year = year book_data,
             tags = Some (case tags book_data of None \<Rightarrow> [] | Some ts \<Rightarrow> ts),
             id' = next_id s\<rparr>"
  let ?s' = "s\<lparr>next_id := next_id s + 1, books := dict_set (next_id s) ?b (books s)\<rparr>"
  have tg: "(case tags book_data of None \<Rightarrow> [] | Some ts \<Rightarrow> if ts \<noteq> [] then ts else [])
            = (case tags book_data of None \<Rightarrow> [] | Some ts \<Rightarrow> ts)"
    by (simp split: option.split)
  have c: "create_book book_data s = (?b, ?s')"
    by (simp add: create_book_def Let_def tg)
  have fresh: "next_id s \<notin> set (map fst (books s))"
    using assms by (rule fresh_next_id)
  have "get_book (id' ?b) ?s' = Some ?b"
    by (simp add: get_book_def dict_get_def map_of_dict_set)
  moreover have "get_book (id' ?b) s = None"
    using fresh by (simp add: get_book_def dict_get_def map_of_fresh)
  moreover have "\<forall>j. j \<noteq> id' ?b \<longrightarrow> get_book j ?s' = get_book j s"
    by (simp add: get_book_def dict_get_def map_of_dict_set)
  moreover have "books ?s' = books s @ [(id' ?b, ?b)]"
    using fresh by (simp add: dict_set_fresh)
  ultimately show ?thesis using c by blast
qed

theorem create_book_get_witness:
  "repo_inv sample_repository
   \<and> (\<exists>s'. create_book clean_coder sample_repository
              = (\<lparr>title = ''The Clean Coder'', author = ''ROBERT C. MARTIN'', year = 2011,
                  tags = Some [], id' = 4\<rparr>, s')
          \<and> get_book 4 s' = Some \<lparr>title = ''The Clean Coder'', author = ''ROBERT C. MARTIN'',
                                   year = 2011, tags = Some [], id' = 4\<rparr>
          \<and> get_book 4 sample_repository = None
          \<and> get_book 1 s' = get_book 1 sample_repository)"
proof -
  have inv: "repo_inv sample_repository"
    by (simp add: repo_inv_def sample_defs)
  from create_book_get [OF inv, of clean_coder]
  show ?thesis
    using inv by (auto simp: sample_defs)
qed

lemma create_book_id: "id' (fst (create_book book_data s)) = next_id s"
  by (simp add: create_book_def Let_def)

lemma create_book_next_id: "next_id (snd (create_book book_data s)) = next_id s + 1"
  by (simp add: create_book_def Let_def)

lemma delete_book_next_id: "delete_book i s = Inr (r, s') \<Longrightarrow> next_id s' = next_id s"
  by (auto simp: delete_book_eq split: if_splits)

lemma run_ops_ids:
  "\<exists>s'. run_ops ops s = Inr ([next_id s .. next_id s + int (count_creates ops) - 1], s')
        \<and> next_id s' = next_id s + int (count_creates ops)"
proof (induction ops arbitrary: s)
  case Nil
  show ?case by simp
next
  case (Cons x ops)
  show ?case
  proof (cases x)
    case (Create book_data)
    obtain b s1 where c: "create_book book_data s = (b, s1)"
      by (cases "create_book book_data s")
    have b: "id' b = next_id s" using create_book_id [of book_data s] c by simp
    have n1: "next_id s1 = next_id s + 1" using create_book_next_id [of book_data s] c by simp
    obtain s' where r: "run_ops ops s1 = Inr ([next_id s1 .. next_id s1 + int (count_creates ops) - 1], s')"
      and n': "next_id s' = next_id s1 + int (count_creates ops)"
      using Cons.IH [of s1] by blast
    have "[next_id s .. next_id s + int (count_creates (x # ops)) - 1]
          = next_id s # [next_id s1 .. next_id s1 + int (count_creates ops) - 1]"
      using Create n1 by (simp add: upto_rec1 [of "next_id s"] algebra_simps)
    with Create c b r n' n1 show ?thesis by simp
  next
    case (Delete i)
    obtain r s1 where d: "delete_book i s = Inr (r, s1)"
      by (simp add: delete_book_eq)
    then have "next_id s1 = next_id s" by (rule delete_book_next_id)
    with Cons.IH [of s1] Delete d show ?thesis by simp
  qed
qed

lemma load_next_id:
  "next_id (load_initial_books bs s)
   = (if bs = [] then next_id s else max (next_id s) (Max (id' ` set bs) + 1))"
proof (induction bs arbitrary: s)
  case Nil
  show ?case by simp
next
  case (Cons b bs)
  show ?case
  proof (cases "bs = []")
    case True
    then show ?thesis by simp
  next
    case False
    then have "Max (id' ` set (b # bs)) = max (id' b) (Max (id' ` set bs))"
      by simp
    with Cons False show ?thesis by simp
  qed
qed

text \<open>
  Claim C4. After at most one initial \<open>load_initial_books\<close> (the empty list stands for no
  call), every sequence of \<open>create_book\<close> and \<open>delete_book\<close> calls runs without a fault
  and the ids that the creations return are the consecutive integers from the counter
  left by the load: each is greater than every loaded id and every id returned before,
  and deletions do not change the counter. The counter starts at 1 for an empty store,
  and at the greatest loaded id plus 1 when records with positive ids were loaded
  (in general at the maximum of 1 and that number).
\<close>

theorem create_ids_consecutive:
  "(\<exists>s'. run_ops ops (load_initial_books bs init_repository)
           = Inr ([next_id (load_initial_books bs init_repository) ..
                   next_id (load_initial_books bs init_repository) + int (count_creates ops) - 1], s')
         \<and> next_id s' = next_id (load_initial_books bs init_repository) + int (count_creates ops))
   \<and> (\<forall>b\<in>set bs. id' b < next_id (load_initial_books bs init_repository))
   \<and> (bs = [] \<longrightarrow> next_id (load_initial_books bs init_repository) = 1)
   \<and> (bs \<noteq> [] \<longrightarrow> next_id (load_initial_books bs init_repository) = max 1 (Max (id' ` set bs) + 1))
   \<and> (bs \<noteq> [] \<and> (\<forall>b\<in>set bs. 0 < id' b) \<longrightarrow>
        next_id (load_initial_books bs init_repository) = Max (id' ` set bs) + 1)"
proof (intro conjI)
  show "\<exists>s'. run_ops ops (load_initial_books bs init_repository)
           = Inr ([next_id (load_initial_books bs init_repository) ..
                   next_id (load_initial_books bs init_repository) + int (count_creates ops) - 1], s')
         \<and> next_id s' = next_id (load_initial_books bs init_repository) + int (count_creates ops)"
    by (rule run_ops_ids)
next
  show "\<forall>b\<in>set bs. id' b < next_id (load_initial_books bs init_repository)"
  proof
    fix b assume b: "b \<in> set bs"
    then have "id' b \<le> Max (id' ` set bs)" by simp
    moreover from b have "bs \<noteq> []" by auto
    ultimately show "id' b < next_id (load_initial_books bs init_repository)"
      by (simp add: load_next_id)
  qed
next
  show "bs = [] \<longrightarrow> next_id (load_initial_books bs init_repository) = 1"
    by (simp add: init_repository_def)
next
  show "bs \<noteq> [] \<longrightarrow> next_id (load_initial_books bs init_repository) = max 1 (Max (id' ` set bs) + 1)"
    by (simp add: load_next_id init_repository_def)
next
  show "bs \<noteq> [] \<and> (\<forall>b\<in>set bs. 0 < id' b) \<longrightarrow>
        next_id (load_initial_books bs init_repository) = Max (id' ` set bs) + 1"
  proof
    assume a: "bs \<noteq> [] \<and> (\<forall>b\<in>set bs. 0 < id' b)"
    then obtain b where "b \<in> set bs" by (cases bs) auto
    with a have "0 < id' b" "id' b \<le> Max (id' ` set bs)" by simp_all
    then have "1 \<le> Max (id' ` set bs) + 1" by linarith
    with a show "next_id (load_initial_books bs init_repository) = Max (id' ` set bs) + 1"
      by (simp add: load_next_id init_repository_def)
  qed
qed

theorem create_ids_consecutive_witness:
  "(\<exists>s'. run_ops [Create clean_code, Delete 5, Create refactoring, Delete 11, Create clean_coder]
            (load_initial_books [with_id 5 clean_code, with_id 10 refactoring] init_repository)
          = Inr ([11, 12, 13], s') \<and> next_id s' = 14)
   \<and> Max (id' ` set [with_id 5 clean_code, with_id 10 refactoring]) + 1 = 11"
proof -
  have n: "next_id (load_initial_books [with_id 5 clean_code, with_id 10 refactoring] init_repository) = 11"
    by (simp add: with_id_def init_repository_def)
  have pos: "[with_id 5 clean_code, with_id 10 refactoring] \<noteq> []
             \<and> (\<forall>b\<in>set [with_id 5 clean_code, with_id 10 refactoring]. 0 < id' b)"
    by (simp add: with_id_def)
  have r: "[11 .. 11 + int (count_creates [Create clean_code, Delete 5, Create refactoring, Delete 11, Create clean_coder]) - 1]
     = [11, 12, 13]"
    by (simp add: upto_rec1)
  from create_ids_consecutive [of "[Create clean_code, Delete 5, Create refactoring, Delete 11, Create clean_coder]"
         "[with_id 5 clean_code, with_id 10 refactoring]"]
  show ?thesis
    using pos unfolding n r by simp
qed

text \<open>
  Claim C6. For every store state, \<open>get_stats\<close> returns \<open>total_books\<close> = the number of
  records in the store and \<open>unique_authors\<close> = the number of distinct author strings,
  compared exactly: no trimming or lowercasing, so the count is at least the number of
  distinct normalized authors that the case-insensitive author filter distinguishes.
\<close>

theorem stats_counts:
  "total_books (get_stats s) = int (length (dict_values (books s)))
   \<and> unique_authors (get_stats s) = int (card {a. \<exists>b\<in>set (dict_values (books s)). author b = a})
   \<and> int (card {n. \<exists>b\<in>set (dict_values (books s)). normalize_string (author b) = n})
       \<le> unique_authors (get_stats s)
   \<and> (distinct (map fst (books s)) \<longrightarrow>
        total_books (get_stats s) = int (card {i. get_book i s \<noteq> None}))"
proof (intro conjI impI)
  show "total_books (get_stats s) = int (length (dict_values (books s)))"
    by (simp add: get_stats_def dict_values_def)
next
  have "{a. \<exists>b\<in>set (dict_values (books s)). author b = a} = set (map author (dict_values (books s)))"
    by auto
  then show "unique_authors (get_stats s) = int (card {a. \<exists>b\<in>set (dict_values (books s)). author b = a})"
    by (simp add: get_stats_def)
next
  have "{n. \<exists>b\<in>set (dict_values (books s)). normalize_string (author b) = n}
        = normalize_string ` set (map author (dict_values (books s)))"
    by auto
  moreover have "card (normalize_string ` set (map author (dict_values (books s))))
        \<le> card (set (map author (dict_values (books s))))"
    by (rule card_image_le) simp
  ultimately show "int (card {n. \<exists>b\<in>set (dict_values (books s)). normalize_string (author b) = n})
       \<le> unique_authors (get_stats s)"
    by (simp add: get_stats_def)
next
  assume d: "distinct (map fst (books s))"
  have "{i. get_book i s \<noteq> None} = set (map fst (books s))"
    by (auto simp: get_book_def dict_get_def map_of_eq_None_iff)
  moreover have "card (set (map fst (books s))) = length (map fst (books s))"
    using d by (rule distinct_card)
  ultimately have "card {i. get_book i s \<noteq> None} = length (books s)"
    by simp
  then show "total_books (get_stats s) = int (card {i. get_book i s \<noteq> None})"
    by (simp add: get_stats_def)
qed

theorem stats_counts_witness:
  "distinct (map fst (books sample_repository))
   \<and> int (card {i. get_book i sample_repository \<noteq> None}) = 3
   \<and> int (card {a. \<exists>b\<in>set (dict_values (books sample_repository)). author b = a}) = 3
   \<and> get_stats sample_repository = \<lparr>total_books = 3, unique_authors = 3\<rparr>
   \<and> normalize_string (author clean_code) = normalize_string (author clean_coder)"
proof -
  have d: "distinct (map fst (books sample_repository))"
    by (simp add: sample_defs)
  have g: "get_stats sample_repository = \<lparr>total_books = 3, unique_authors = 3\<rparr>"
    by (simp add: get_stats_def dict_values_def sample_defs)
  have n: "normalize_string (author clean_code) = normalize_string (author clean_coder)"
    unfolding clean_code_def clean_coder_def by code_simp
  from stats_counts [of sample_repository] d g n show ?thesis by simp
qed

section \<open>Reachable states\<close>

lemma repo_inv_create:
  assumes "repo_inv s"
  shows "repo_inv (snd (create_book book_data s))"
proof -
  let ?b = "fst (create_book book_data s)"
  have fresh: "next_id s \<notin> set (map fst (books s))"
    using assms by (rule fresh_next_id)
  have bk: "books (snd (create_book book_data s)) = books s @ [(next_id s, ?b)]"
    using fresh by (simp add: create_book_def Let_def dict_set_fresh)
  have "id' ?b = next_id s" by (rule create_book_id)
  moreover have "next_id (snd (create_book book_data s)) = next_id s + 1"
    by (rule create_book_next_id)
  ultimately show ?thesis
    using assms fresh unfolding repo_inv_def bk
    by (auto simp: list_all_iff)
qed

lemma repo_inv_delete:
  assumes "repo_inv s" "delete_book i s = Inr (r, s')"
  shows "repo_inv s'"
proof -
  have bk: "set (books s') \<subseteq> set (books s)" and n: "next_id s' = next_id s"
    and d: "books s' = books s \<or> books s' = filter (\<lambda>kv. fst kv \<noteq> i) (books s)"
    using assms(2) by (auto simp: delete_book_eq split: if_splits)
  have "distinct (map fst (books s'))"
    using d assms(1) by (auto simp: repo_inv_def distinct_map_filter)
  moreover have "\<forall>kv\<in>set (books s'). fst kv < next_id s' \<and> id' (snd kv) = fst kv"
    using bk n assms(1) by (auto simp: repo_inv_def list_all_iff)
  ultimately show ?thesis by (simp add: repo_inv_def list_all_iff)
qed

lemma repo_inv_load:
  assumes "repo_inv s"
  shows "repo_inv (load_initial_books bs s)"
  using assms
proof (induction bs arbitrary: s)
  case Nil
  then show ?case by simp
next
  case (Cons b bs)
  let ?s1 = "s\<lparr>books := dict_set (id' b) b (books s), next_id := max (next_id s) (id' b + 1)\<rparr>"
  have "distinct (map fst (books ?s1))"
    using Cons.prems by (simp add: repo_inv_def distinct_dict_set)
  moreover have "\<forall>kv\<in>set (books ?s1). fst kv < next_id ?s1 \<and> id' (snd kv) = fst kv"
  proof
    fix kv assume "kv \<in> set (books ?s1)"
    then have "kv = (id' b, b) \<or> kv \<in> set (books s)"
      by (auto dest: in_dict_set)
    then show "fst kv < next_id ?s1 \<and> id' (snd kv) = fst kv"
      using Cons.prems by (auto simp: repo_inv_def list_all_iff)
  qed
  ultimately have "repo_inv ?s1" by (simp add: repo_inv_def list_all_iff)
  then show ?case using Cons.IH by simp
qed

lemma repo_inv_run_ops:
  assumes "repo_inv s" "run_ops ops s = Inr (ids, s')"
  shows "repo_inv s'"
  using assms
proof (induction ops arbitrary: s ids)
  case Nil
  then show ?case by simp
next
  case (Cons x ops)
  show ?case
  proof (cases x)
    case (Create book_data)
    have "repo_inv (snd (create_book book_data s))"
      using Cons.prems(1) by (rule repo_inv_create)
    with Cons Create show ?thesis
      by (auto split: prod.splits sum.splits)
  next
    case (Delete i)
    with Cons show ?thesis
      by (auto split: prod.splits sum.splits dest: repo_inv_delete)
  qed
qed

text \<open>The ids that the data loader assigns are positive, and the loaded store is reachable.\<close>

lemma ids_assign_ids: "map id' (assign_ids bs) = [1..int (length bs)]"
proof -
  have "map id' (assign_ids bs) = map fst (zip [1..int (length bs)] bs)"
    by (simp add: assign_ids_def with_id_def case_prod_beta comp_def)
  then show ?thesis by simp
qed

lemma assign_ids_positive: "\<forall>b\<in>set (assign_ids bs). 0 < id' b"
proof
  fix b assume "b \<in> set (assign_ids bs)"
  then have "id' b \<in> set (map id' (assign_ids bs))" by simp
  then show "0 < id' b" by (simp only: ids_assign_ids) simp
qed

lemma repo_inv_loaded: "repo_inv (load_initial_books (assign_ids bs) init_repository)"
  by (rule repo_inv_load) (rule repo_inv_init)

section \<open>Sorting\<close>

lemma stable_sort_unique:
  assumes "mset ys = mset xs" "sorted (map f ys)"
    and "\<And>k. filter (\<lambda>x. f x = k) ys = filter (\<lambda>x. f x = k) xs"
  shows "ys = sort_key f xs"
proof -
  have "filter (\<lambda>x. f k = f x) ys = filter (\<lambda>x. f k = f x) xs" for k
    using assms(3) [of "f k"] by (simp add: eq_commute)
  with assms(1,2) show ?thesis
    by (intro properties_for_sort_key [symmetric]) simp_all
qed

lemma list_sort_stable:
  "filter (\<lambda>x. f x = k) (list_sort f r xs) = filter (\<lambda>x. f x = k) xs"
proof (cases r)
  case True
  have "filter (\<lambda>x. f x = k) (rev (sort_key f (rev xs)))
        = rev (filter (\<lambda>x. f x = k) (sort_key f (rev xs)))"
    by (simp add: rev_filter)
  also have "\<dots> = rev (filter (\<lambda>x. f x = k) (rev xs))"
    by (simp only: sort_key_stable)
  also have "\<dots> = filter (\<lambda>x. f x = k) xs"
    by (simp add: rev_filter)
  finally show ?thesis using True by (simp add: list_sort_def)
next
  case False
  then show ?thesis by (simp add: list_sort_def sort_key_stable)
qed

lemma mset_list_sort: "mset (list_sort f r xs) = mset xs"
  by (simp add: list_sort_def)

lemma sorted_list_sort_asc: "sorted (map f (list_sort f False xs))"
  by (simp add: list_sort_def)

lemma sorted_list_sort_desc: "sorted (rev (map f (list_sort f True xs)))"
  by (simp add: list_sort_def rev_map)

lemma keys_list_sort: "map f (list_sort f True xs) = rev (map f (list_sort f False xs))"
proof -
  have "sort (map f xs) = map f (sort_key f (rev xs))"
    by (intro properties_for_sort) simp_all
  moreover have "sort (map f xs) = map f (sort_key f xs)"
    by (intro properties_for_sort) simp_all
  ultimately show ?thesis by (simp add: list_sort_def rev_map)
qed

lemma filter_distinct_key:
  "distinct (map f xs) \<Longrightarrow> length (filter (\<lambda>x. f x = k) xs) \<le> 1"
proof (induction xs)
  case Nil
  show ?case by simp
next
  case (Cons x xs)
  show ?case
  proof (cases "f x = k")
    case True
    from Cons.prems have "f x \<notin> f ` set xs" by simp
    with True have "\<forall>y\<in>set xs. f y \<noteq> k" by blast
    then have "filter (\<lambda>x. f x = k) xs = []" by (simp add: filter_empty_conv)
    with True show ?thesis by simp
  next
    case False
    with Cons show ?thesis by simp
  qed
qed

lemma rev_short: "length xs \<le> 1 \<Longrightarrow> rev xs = xs"
  by (cases xs) auto

lemma list_sort_distinct_keys:
  assumes "distinct (map f xs)"
  shows "list_sort f True xs = rev (list_sort f False xs)"
proof -
  have "sort_key f (rev xs) = sort_key f xs"
  proof (rule stable_sort_unique)
    show "mset (sort_key f (rev xs)) = mset xs" by simp
    show "sorted (map f (sort_key f (rev xs)))" by simp
    fix k
    have "filter (\<lambda>x. f x = k) (sort_key f (rev xs)) = rev (filter (\<lambda>x. f x = k) xs)"
      by (simp add: sort_key_stable rev_filter)
    also have "\<dots> = filter (\<lambda>x. f x = k) xs"
      by (rule rev_short, rule filter_distinct_key, rule assms)
    finally show "filter (\<lambda>x. f x = k) (sort_key f (rev xs)) = filter (\<lambda>x. f x = k) xs" .
  qed
  then show ?thesis by (simp add: list_sort_def)
qed

lemma apply_sorting_year:
  "apply_sorting (Some ''year'') so bs = list_sort (\<lambda>x. year x) (so = Some ''desc'') bs"
  by (simp add: apply_sorting_def)

lemma apply_sorting_author:
  "apply_sorting (Some ''author'') so bs
   = list_sort (\<lambda>x. normalize_string (author x)) (so = Some ''desc'') bs"
  by (simp add: apply_sorting_def)

lemma mset_apply_sorting: "mset (apply_sorting sb so bs) = mset bs"
  by (simp add: apply_sorting_def mset_list_sort Let_def split: option.split)

text \<open>
  Claim C8. The sort of \<open>get_books\<close> is stable, in both directions: for each sort key,
  the records with that key come in the sorted sequence in the order they have in the
  store snapshot (after filtering), and sorting only permutes the records. The result
  of a query depends on the filter specification and the stored items alone, so the same
  query against an unchanged store gives the identical result.
\<close>

theorem sort_stable:
  "(sort_by filters = Some ''year'' \<longrightarrow>
      filter (\<lambda>b. year b = k) (sorted_books filters s)
      = filter (\<lambda>b. year b = k) (filtered_books filters s))
   \<and> (sort_by filters = Some ''author'' \<longrightarrow>
      filter (\<lambda>b. normalize_string (author b) = n) (sorted_books filters s)
      = filter (\<lambda>b. normalize_string (author b) = n) (filtered_books filters s))
   \<and> mset (sorted_books filters s) = mset (filtered_books filters s)
   \<and> (books s' = books s \<longrightarrow> get_books filters s' = get_books filters s)"
proof (intro conjI impI)
  assume "sort_by filters = Some ''year''"
  then show "filter (\<lambda>b. year b = k) (sorted_books filters s)
      = filter (\<lambda>b. year b = k) (filtered_books filters s)"
    by (simp add: sorted_books_def apply_sorting_year list_sort_stable)
next
  assume "sort_by filters = Some ''author''"
  then show "filter (\<lambda>b. normalize_string (author b) = n) (sorted_books filters s)
      = filter (\<lambda>b. normalize_string (author b) = n) (filtered_books filters s)"
    by (simp add: sorted_books_def apply_sorting_author list_sort_stable)
next
  show "mset (sorted_books filters s) = mset (filtered_books filters s)"
    by (simp add: sorted_books_def mset_apply_sorting)
next
  assume "books s' = books s"
  then show "get_books filters s' = get_books filters s"
    by (simp add: get_books_def sorted_books_def filtered_books_def)
qed

lemma sample_filtered:
  "filtered_books (by_year order) sample_repository
   = [with_id 1 clean_code, with_id 2 clean_coder, with_id 3 refactoring]"
  by (simp add: filtered_books_def by_year_def sample_repository_def dict_values_def
      filter_by_author_def filter_by_year_def filter_by_search_def)

theorem sort_stable_witness:
  "sort_by (by_year ''desc'') = Some ''year''
   \<and> filter (\<lambda>b. year b = 2008) (sorted_books (by_year ''desc'') sample_repository)
     = [with_id 1 clean_code, with_id 3 refactoring]
   \<and> filter (\<lambda>b. year b = 2008) (sorted_books (by_year ''asc'') sample_repository)
     = [with_id 1 clean_code, with_id 3 refactoring]"
proof -
  have sb: "sort_by (by_year order) = Some ''year''" for order
    by (simp add: by_year_def)
  have "filter (\<lambda>b. year b = 2008) [with_id 1 clean_code, with_id 2 clean_coder, with_id 3 refactoring]
        = [with_id 1 clean_code, with_id 3 refactoring]"
    by (simp add: with_id_def clean_code_def clean_coder_def refactoring_def)
  with sort_stable [of "by_year ''desc''" 2008 sample_repository]
       sort_stable [of "by_year ''asc''" 2008 sample_repository]
  show ?thesis by (simp add: sb sample_filtered)
qed

lemma sample_sorted_asc:
  "sorted_books (by_year ''asc'') sample_repository
   = [with_id 1 clean_code, with_id 3 refactoring, with_id 2 clean_coder]"
  unfolding sorted_books_def sample_filtered
  by (simp add: by_year_def apply_sorting_year list_sort_def with_id_def clean_code_def
      clean_coder_def refactoring_def)

lemma sample_sorted_desc:
  "sorted_books (by_year ''desc'') sample_repository
   = [with_id 2 clean_coder, with_id 1 clean_code, with_id 3 refactoring]"
  unfolding sorted_books_def sample_filtered
  by (simp add: by_year_def apply_sorting_year list_sort_def with_id_def clean_code_def
      clean_coder_def refactoring_def)

lemma paginate_first_page:
  "length xs \<le> 10 \<Longrightarrow>
   paginate xs 1 10 = Inr \<lparr>items = xs, total = int (length xs), page_no = 1, page_limit = 10,
                           has_next = False, has_prev = False\<rparr>"
  by (simp add: paginate_ok)

section \<open>Filters\<close>

lemma startswith_iff: "startswith s p \<longleftrightarrow> (\<exists>post. s = p @ post)"
  by (induction s p rule: startswith.induct) auto

lemma str_in_iff: "str_in needle haystack \<longleftrightarrow> (\<exists>pre post. haystack = pre @ needle @ post)"
proof (induction haystack)
  case Nil
  show ?case by simp
next
  case (Cons c cs)
  show ?case
  proof
    assume "str_in needle (c # cs)"
    then consider "startswith (c # cs) needle" | "str_in needle cs" by auto
    then show "\<exists>pre post. c # cs = pre @ needle @ post"
    proof cases
      case 1
      then obtain post where "c # cs = needle @ post" by (auto simp: startswith_iff)
      then have "c # cs = [] @ needle @ post" by simp
      then show ?thesis by blast
    next
      case 2
      then obtain pre post where "cs = pre @ needle @ post" using Cons.IH by blast
      then have "c # cs = (c # pre) @ needle @ post" by simp
      then show ?thesis by blast
    qed
  next
    assume "\<exists>pre post. c # cs = pre @ needle @ post"
    then obtain pre post where eq: "c # cs = pre @ needle @ post" by blast
    show "str_in needle (c # cs)"
    proof (cases pre)
      case Nil
      with eq have "startswith (c # cs) needle" by (auto simp: startswith_iff)
      then show ?thesis by simp
    next
      case (Cons d pre')
      with eq have "cs = pre' @ needle @ post" by simp
      then have "str_in needle cs" using Cons.IH by blast
      then show ?thesis by simp
    qed
  qed
qed

lemma str_in_Nil: "str_in [] haystack"
  by (cases haystack) simp_all

lemma filter_by_author_eq:
  "filter_by_author (Some a) bs
   = filter (\<lambda>book. str_in (normalize_string a) (normalize_string (author book))) bs"
  by (simp add: filter_by_author_def normalize_string_def str_in_Nil)

lemma filter_by_search_eq:
  "filter_by_search (Some q) bs
   = filter (\<lambda>book. str_in (normalize_string q) (normalize_string (title book))) bs"
  by (simp add: filter_by_search_def normalize_string_def str_in_Nil)

lemma filter_by_year_pred:
  "filter_by_year y bs
   = filter (\<lambda>book. case y of None \<Rightarrow> True | Some v \<Rightarrow> v = 0 \<or> year book = v) bs"
  by (cases y) (auto simp: filter_by_year_def intro: filter_cong)

lemma filter_by_search_pred:
  "filter_by_search q bs
   = filter (\<lambda>book. case q of None \<Rightarrow> True
                    | Some v \<Rightarrow> str_in (normalize_string v) (normalize_string (title book))) bs"
  by (cases q) (simp_all add: filter_by_search_eq, simp add: filter_by_search_def)

lemma filter_by_year_commute:
  "filter_by_year y (filter P bs) = filter P (filter_by_year y bs)"
  by (simp add: filter_by_year_pred conj_commute)

lemma filter_by_search_commute:
  "filter_by_search q (filter P bs) = filter P (filter_by_search q bs)"
  by (simp add: filter_by_search_pred conj_commute)

text \<open>
  Claim C5. For every store, the author filter selects exactly the records whose
  normalized author contains the normalized filter value as a substring, so two filter
  values with the same normalization give identical results; the search filter is the
  same test on the normalized title. \<open>str_in\<close> is substring containment.
\<close>

theorem author_filter_normalized:
  "(normalize_string a1 = normalize_string a2 \<longrightarrow>
      get_books (filters\<lparr>author_filter := Some a1\<rparr>) s
      = get_books (filters\<lparr>author_filter := Some a2\<rparr>) s)
   \<and> filtered_books (filters\<lparr>author_filter := Some a1\<rparr>) s
     = filter (\<lambda>b. str_in (normalize_string a1) (normalize_string (author b)))
         (filtered_books (filters\<lparr>author_filter := None\<rparr>) s)
   \<and> filtered_books (filters\<lparr>search := Some q\<rparr>) s
     = filter (\<lambda>b. str_in (normalize_string q) (normalize_string (title b)))
         (filtered_books (filters\<lparr>search := None\<rparr>) s)
   \<and> (str_in needle haystack \<longleftrightarrow> (\<exists>pre post. haystack = pre @ needle @ post))"
proof (intro conjI impI)
  assume "normalize_string a1 = normalize_string a2"
  then have "filter_by_author (Some a1) bs = filter_by_author (Some a2) bs" for bs
    by (simp add: filter_by_author_eq)
  then show "get_books (filters\<lparr>author_filter := Some a1\<rparr>) s
      = get_books (filters\<lparr>author_filter := Some a2\<rparr>) s"
    by (simp add: get_books_def sorted_books_def filtered_books_def)
next
  let ?P = "\<lambda>b. str_in (normalize_string a1) (normalize_string (author b))"
  have "filtered_books (filters\<lparr>author_filter := Some a1\<rparr>) s
        = filter_by_search (search filters) (filter_by_year (year_filter filters)
            (filter ?P (dict_values (books s))))"
    by (simp add: filtered_books_def filter_by_author_eq)
  also have "\<dots> = filter ?P (filter_by_search (search filters)
            (filter_by_year (year_filter filters) (dict_values (books s))))"
    by (simp only: filter_by_year_commute filter_by_search_commute)
  finally show "filtered_books (filters\<lparr>author_filter := Some a1\<rparr>) s
     = filter ?P (filtered_books (filters\<lparr>author_filter := None\<rparr>) s)"
    by (simp add: filtered_books_def filter_by_author_def)
next
  show "filtered_books (filters\<lparr>search := Some q\<rparr>) s
     = filter (\<lambda>b. str_in (normalize_string q) (normalize_string (title b)))
         (filtered_books (filters\<lparr>search := None\<rparr>) s)"
    by (simp add: filtered_books_def filter_by_search_eq, simp add: filter_by_search_def)
next
  show "str_in needle haystack \<longleftrightarrow> (\<exists>pre post. haystack = pre @ needle @ post)"
    by (rule str_in_iff)
qed

lemma sample_norm:
  "normalize_string ''ROBERT C. MARTIN'' = ''robert c. martin''"
  "normalize_string ''  robert c. martin '' = ''robert c. martin''"
  "normalize_string (author (with_id 1 clean_code)) = ''robert c. martin''"
  "normalize_string (author (with_id 2 clean_coder)) = ''robert c. martin''"
  "normalize_string (author (with_id 3 refactoring)) = ''martin fowler''"
  unfolding with_id_def clean_code_def clean_coder_def refactoring_def by code_simp+

lemma sample_by_author:
  "sort_by ((by_year order)\<lparr>author_filter := a\<rparr>) = Some ''year''"
  "filtered_books ((by_year order)\<lparr>author_filter := None\<rparr>) sample_repository
   = [with_id 1 clean_code, with_id 2 clean_coder, with_id 3 refactoring]"
  by (simp_all add: filtered_books_def by_year_def sample_repository_def dict_values_def
      filter_by_author_def filter_by_year_def filter_by_search_def)

theorem author_filter_normalized_witness:
  "normalize_string ''ROBERT C. MARTIN'' = normalize_string ''  robert c. martin ''
   \<and> get_books ((by_year ''asc'')\<lparr>author_filter := Some ''ROBERT C. MARTIN''\<rparr>) sample_repository
     = get_books ((by_year ''asc'')\<lparr>author_filter := Some ''  robert c. martin ''\<rparr>) sample_repository
   \<and> filtered_books ((by_year ''asc'')\<lparr>author_filter := Some ''ROBERT C. MARTIN''\<rparr>) sample_repository
     = [with_id 1 clean_code, with_id 2 clean_coder]"
proof -
  have n: "normalize_string ''ROBERT C. MARTIN'' = normalize_string ''  robert c. martin ''"
    by (simp only: sample_norm)
  from author_filter_normalized
         [where ?a1.0 = "''ROBERT C. MARTIN''" and ?a2.0 = "''  robert c. martin ''"
            and filters = "by_year ''asc''" and s = sample_repository
            and q = "''clean''" and needle = "''c. martin''" and haystack = "''robert c. martin''"]
  show ?thesis
    using n by (simp add: sample_by_author sample_norm)
qed

section \<open>Sort order\<close>

lemma filtered_books_sort_order [simp]:
  "filtered_books (filters\<lparr>sort_order := so\<rparr>) s = filtered_books filters s"
  by (simp add: filtered_books_def)

text \<open>
  Claim C1, as amended. The claim is about the sequence that a query sorts and then
  hands to the paginator (\<open>sorted_books\<close>, the whole filtered and sorted sequence, of
  which \<open>get_books\<close> returns one page). For every store snapshot and every sort key
  (year or normalized author): under \<open>sort_order = asc\<close> that sequence is a permutation
  of the filtered snapshot in non-decreasing key order; under \<open>desc\<close> it is a permutation
  whose sequence of sort keys is the exact reverse of the sequence of sort keys under
  \<open>asc\<close>; in both directions the records whose sort keys compare equal keep the order
  they have in the filtered store snapshot (the tie-break order is not reversed); and
  when the sort keys of the selected records are pairwise distinct, the \<open>desc\<close> sequence
  is the exact reverse of the \<open>asc\<close> sequence.
\<close>

theorem desc_reverses_keys:
  "get_books (filters\<lparr>sort_order := so\<rparr>) s
     = paginate (sorted_books (filters\<lparr>sort_order := so\<rparr>) s) (page filters) (limit filters)
   \<and> mset (sorted_books (filters\<lparr>sort_order := Some ''asc''\<rparr>) s) = mset (filtered_books filters s)
   \<and> mset (sorted_books (filters\<lparr>sort_order := Some ''desc''\<rparr>) s) = mset (filtered_books filters s)
   \<and> (sort_by filters = Some ''year'' \<longrightarrow>
      sorted (map year (sorted_books (filters\<lparr>sort_order := Some ''asc''\<rparr>) s))
      \<and> map year (sorted_books (filters\<lparr>sort_order := Some ''desc''\<rparr>) s)
        = rev (map year (sorted_books (filters\<lparr>sort_order := Some ''asc''\<rparr>) s))
      \<and> filter (\<lambda>b. year b = k) (sorted_books (filters\<lparr>sort_order := Some ''asc''\<rparr>) s)
        = filter (\<lambda>b. year b = k) (filtered_books filters s)
      \<and> filter (\<lambda>b. year b = k) (sorted_books (filters\<lparr>sort_order := Some ''desc''\<rparr>) s)
        = filter (\<lambda>b. year b = k) (filtered_books filters s)
      \<and> (distinct (map year (filtered_books filters s)) \<longrightarrow>
           sorted_books (filters\<lparr>sort_order := Some ''desc''\<rparr>) s
           = rev (sorted_books (filters\<lparr>sort_order := Some ''asc''\<rparr>) s)))
   \<and> (sort_by filters = Some ''author'' \<longrightarrow>
      sorted (map (\<lambda>b. normalize_string (author b))
                (sorted_books (filters\<lparr>sort_order := Some ''asc''\<rparr>) s))
      \<and> map (\<lambda>b. normalize_string (author b)) (sorted_books (filters\<lparr>sort_order := Some ''desc''\<rparr>) s)
        = rev (map (\<lambda>b. normalize_string (author b))
                 (sorted_books (filters\<lparr>sort_order := Some ''asc''\<rparr>) s))
      \<and> filter (\<lambda>b. normalize_string (author b) = n)
           (sorted_books (filters\<lparr>sort_order := Some ''asc''\<rparr>) s)
        = filter (\<lambda>b. normalize_string (author b) = n) (filtered_books filters s)
      \<and> filter (\<lambda>b. normalize_string (author b) = n)
           (sorted_books (filters\<lparr>sort_order := Some ''desc''\<rparr>) s)
        = filter (\<lambda>b. normalize_string (author b) = n) (filtered_books filters s)
      \<and> (distinct (map (\<lambda>b. normalize_string (author b)) (filtered_books filters s)) \<longrightarrow>
           sorted_books (filters\<lparr>sort_order := Some ''desc''\<rparr>) s
           = rev (sorted_books (filters\<lparr>sort_order := Some ''asc''\<rparr>) s)))"
proof (intro conjI impI)
  show "get_books (filters\<lparr>sort_order := so\<rparr>) s
     = paginate (sorted_books (filters\<lparr>sort_order := so\<rparr>) s) (page filters) (limit filters)"
    by (simp add: get_books_def)
  show "mset (sorted_books (filters\<lparr>sort_order := Some ''asc''\<rparr>) s) = mset (filtered_books filters s)"
    by (simp add: sorted_books_def mset_apply_sorting)
  show "mset (sorted_books (filters\<lparr>sort_order := Some ''desc''\<rparr>) s) = mset (filtered_books filters s)"
    by (simp add: sorted_books_def mset_apply_sorting)
next
  assume sb: "sort_by filters = Some ''year''"
  show "sorted (map year (sorted_books (filters\<lparr>sort_order := Some ''asc''\<rparr>) s))"
    using sb by (simp add: sorted_books_def apply_sorting_year sorted_list_sort_asc)
  show "map year (sorted_books (filters\<lparr>sort_order := Some ''desc''\<rparr>) s)
        = rev (map year (sorted_books (filters\<lparr>sort_order := Some ''asc''\<rparr>) s))"
    using sb by (simp add: sorted_books_def apply_sorting_year keys_list_sort)
  show "filter (\<lambda>b. year b = k) (sorted_books (filters\<lparr>sort_order := Some ''asc''\<rparr>) s)
        = filter (\<lambda>b. year b = k) (filtered_books filters s)"
    using sb by (simp add: sorted_books_def apply_sorting_year list_sort_stable)
  show "filter (\<lambda>b. year b = k) (sorted_books (filters\<lparr>sort_order := Some ''desc''\<rparr>) s)
        = filter (\<lambda>b. year b = k) (filtered_books filters s)"
    using sb by (simp add: sorted_books_def apply_sorting_year list_sort_stable)
  assume "distinct (map year (filtered_books filters s))"
  then show "sorted_books (filters\<lparr>sort_order := Some ''desc''\<rparr>) s
           = rev (sorted_books (filters\<lparr>sort_order := Some ''asc''\<rparr>) s)"
    using sb by (simp add: sorted_books_def apply_sorting_year list_sort_distinct_keys)
next
  assume sb: "sort_by filters = Some ''author''"
  show "sorted (map (\<lambda>b. normalize_string (author b))
                (sorted_books (filters\<lparr>sort_order := Some ''asc''\<rparr>) s))"
    using sb by (simp add: sorted_books_def apply_sorting_author sorted_list_sort_asc)
  show "map (\<lambda>b. normalize_string (author b)) (sorted_books (filters\<lparr>sort_order := Some ''desc''\<rparr>) s)
        = rev (map (\<lambda>b. normalize_string (author b))
                 (sorted_books (filters\<lparr>sort_order := Some ''asc''\<rparr>) s))"
    using sb by (simp add: sorted_books_def apply_sorting_author keys_list_sort)
  show "filter (\<lambda>b. normalize_string (author b) = n)
           (sorted_books (filters\<lparr>sort_order := Some ''asc''\<rparr>) s)
        = filter (\<lambda>b. normalize_string (author b) = n) (filtered_books filters s)"
    using sb by (simp add: sorted_books_def apply_sorting_author list_sort_stable)
  show "filter (\<lambda>b. normalize_string (author b) = n)
           (sorted_books (filters\<lparr>sort_order := Some ''desc''\<rparr>) s)
        = filter (\<lambda>b. normalize_string (author b) = n) (filtered_books filters s)"
    using sb by (simp add: sorted_books_def apply_sorting_author list_sort_stable)
  assume "distinct (map (\<lambda>b. normalize_string (author b)) (filtered_books filters s))"
  then show "sorted_books (filters\<lparr>sort_order := Some ''desc''\<rparr>) s
           = rev (sorted_books (filters\<lparr>sort_order := Some ''asc''\<rparr>) s)"
    using sb by (simp add: sorted_books_def apply_sorting_author list_sort_distinct_keys)
qed

theorem desc_reverses_keys_witness:
  "sort_by ((by_year ''asc'')\<lparr>author_filter := Some ''ROBERT C. MARTIN''\<rparr>) = Some ''year''
   \<and> distinct (map year (filtered_books ((by_year ''asc'')\<lparr>author_filter := Some ''ROBERT C. MARTIN''\<rparr>)
                           sample_repository))
   \<and> sorted_books ((by_year ''asc'')\<lparr>author_filter := Some ''ROBERT C. MARTIN'', sort_order := Some ''desc''\<rparr>)
        sample_repository
     = rev (sorted_books ((by_year ''asc'')\<lparr>author_filter := Some ''ROBERT C. MARTIN'', sort_order := Some ''asc''\<rparr>)
        sample_repository)
   \<and> filter (\<lambda>b. year b = 2008) (sorted_books ((by_year ''asc'')\<lparr>sort_order := Some ''desc''\<rparr>) sample_repository)
     = [with_id 1 clean_code, with_id 3 refactoring]
   \<and> filter (\<lambda>b. year b = 2008) (sorted_books ((by_year ''asc'')\<lparr>sort_order := Some ''asc''\<rparr>) sample_repository)
     = [with_id 1 clean_code, with_id 3 refactoring]"
proof -
  let ?f = "(by_year ''asc'')\<lparr>author_filter := Some ''ROBERT C. MARTIN''\<rparr>"
  have "filtered_books ?f sample_repository
        = filter (\<lambda>b. str_in (normalize_string ''ROBERT C. MARTIN'') (normalize_string (author b)))
            [with_id 1 clean_code, with_id 2 clean_coder, with_id 3 refactoring]"
    by (simp add: filtered_books_def filter_by_author_eq by_year_def sample_repository_def
        dict_values_def filter_by_year_def filter_by_search_def)
  then have fb: "filtered_books ?f sample_repository = [with_id 1 clean_code, with_id 2 clean_coder]"
    by (simp add: sample_norm)
  have d: "distinct (map year (filtered_books ?f sample_repository))"
    unfolding fb by (simp add: with_id_def clean_code_def clean_coder_def)
  have sb: "sort_by ?f = Some ''year''" "sort_by (by_year ''asc'') = Some ''year''"
    by (simp_all add: by_year_def)
  have ties: "filter (\<lambda>b. year b = 2008) (filtered_books (by_year ''asc'') sample_repository)
              = [with_id 1 clean_code, with_id 3 refactoring]"
    by (simp add: sample_filtered with_id_def clean_code_def clean_coder_def refactoring_def)
  from desc_reverses_keys [where filters = ?f and s = sample_repository and k = 2008
                             and n = "''martin fowler''" and so = "Some ''asc''"]
       desc_reverses_keys [where filters = "by_year ''asc''" and s = sample_repository and k = 2008
                             and n = "''martin fowler''" and so = "Some ''asc''"]
       sb d ties
  show ?thesis by simp
qed

text \<open>
  Claim C1 as stated fails on a store with two books of the same year: the books of
  2008 come in the same order under \<open>asc\<close> and \<open>desc\<close>.
\<close>

theorem desc_not_reverse_counterexample:
  "get_books (by_year ''asc'') sample_repository
     = Inr \<lparr>items = [with_id 1 clean_code, with_id 3 refactoring, with_id 2 clean_coder],
            total = 3, page_no = 1, page_limit = 10, has_next = False, has_prev = False\<rparr>
   \<and> get_books (by_year ''desc'') sample_repository
     = Inr \<lparr>items = [with_id 2 clean_coder, with_id 1 clean_code, with_id 3 refactoring],
            total = 3, page_no = 1, page_limit = 10, has_next = False, has_prev = False\<rparr>
   \<and> [with_id 2 clean_coder, with_id 1 clean_code, with_id 3 refactoring]
     \<noteq> rev [with_id 1 clean_code, with_id 3 refactoring, with_id 2 clean_coder]"
proof -
  have pg: "page (by_year order) = 1" "limit (by_year order) = 10" for order
    by (simp_all add: by_year_def)
  have "with_id 1 clean_code \<noteq> with_id 3 refactoring"
    by (simp add: with_id_def)
  then show ?thesis
    by (simp add: get_books_def pg sample_sorted_asc sample_sorted_desc paginate_first_page)
qed

section \<open>Falsy filter fields\<close>

lemma strip_with_all_ws:
  assumes "\<forall>c\<in>set a. ws c"
  shows "strip_with ws a = []"
proof -
  have d: "dropWhile ws a = []" using assms by (induction a) simp_all
  show ?thesis unfolding strip_with_def d by simp
qed

lemma normalize_all_ws: "\<forall>c\<in>set a. isspace c \<Longrightarrow> normalize_string a = []"
  by (simp add: normalize_string_def strip_def strip_with_all_ws lower_def)

lemma get_books_author_empty:
  "get_books (filters\<lparr>author_filter := Some []\<rparr>) s = get_books (filters\<lparr>author_filter := None\<rparr>) s"
  by (simp add: get_books_def sorted_books_def filtered_books_def filter_by_author_def)

lemma get_books_search_empty:
  "get_books (filters\<lparr>search := Some []\<rparr>) s = get_books (filters\<lparr>search := None\<rparr>) s"
  by (simp add: get_books_def sorted_books_def filtered_books_def filter_by_search_def)

lemma get_books_year_zero:
  "get_books (filters\<lparr>year_filter := Some 0\<rparr>) s = get_books (filters\<lparr>year_filter := None\<rparr>) s"
  by (simp add: get_books_def sorted_books_def filtered_books_def filter_by_year_def)

text \<open>
  Claim C9. A falsy filter field is treated as absent: a year filter equal to 0 and an
  author or search filter equal to the empty string give the result of the query
  without that filter. A whitespace-only author or search value is stripped to the
  empty string when the \<open>BookFilters\<close> are constructed, so the request behaves as if
  the filter were not supplied (and a whitespace-only value handed to the repository
  unstripped selects every record as well).
\<close>

theorem falsy_filters_absent:
  "get_books (filters\<lparr>year_filter := Some 0\<rparr>) s = get_books (filters\<lparr>year_filter := None\<rparr>) s
   \<and> get_books (filters\<lparr>author_filter := Some []\<rparr>) s
     = get_books (filters\<lparr>author_filter := None\<rparr>) s
   \<and> get_books (filters\<lparr>search := Some []\<rparr>) s = get_books (filters\<lparr>search := None\<rparr>) s
   \<and> router_get_books ws a (Some 0) q sb so pg lmt s = router_get_books ws a None q sb so pg lmt s
   \<and> ((\<forall>c\<in>set v. ws c) \<longrightarrow>
        router_get_books ws (Some v) y q sb so pg lmt s = router_get_books ws None y q sb so pg lmt s
        \<and> router_get_books ws a y (Some v) sb so pg lmt s = router_get_books ws a y None sb so pg lmt s)
   \<and> ((\<forall>c\<in>set v. isspace c) \<longrightarrow>
        get_books (filters\<lparr>author_filter := Some v\<rparr>) s
          = get_books (filters\<lparr>author_filter := None\<rparr>) s
        \<and> get_books (filters\<lparr>search := Some v\<rparr>) s = get_books (filters\<lparr>search := None\<rparr>) s)"
proof (intro conjI impI)
  show "get_books (filters\<lparr>year_filter := Some 0\<rparr>) s = get_books (filters\<lparr>year_filter := None\<rparr>) s"
    by (rule get_books_year_zero)
  show "get_books (filters\<lparr>author_filter := Some []\<rparr>) s
     = get_books (filters\<lparr>author_filter := None\<rparr>) s"
    by (rule get_books_author_empty)
  show "get_books (filters\<lparr>search := Some []\<rparr>) s = get_books (filters\<lparr>search := None\<rparr>) s"
    by (rule get_books_search_empty)
  show "router_get_books ws a (Some 0) q sb so pg lmt s = router_get_books ws a None q sb so pg lmt s"
    using get_books_year_zero
      [of "\<lparr>author_filter = map_option (strip_with ws) a, year_filter = None,
            search = map_option (strip_with ws) q, sort_by = map_option (strip_with ws) sb,
            sort_order = map_option (strip_with ws) so, page = pg, limit = lmt\<rparr>" s]
    by (simp add: router_get_books_def new_BookFilters_def Let_def)
next
  assume w: "\<forall>c\<in>set v. ws c"
  show "router_get_books ws (Some v) y q sb so pg lmt s = router_get_books ws None y q sb so pg lmt s"
    using get_books_author_empty
      [of "\<lparr>author_filter = None, year_filter = y,
            search = map_option (strip_with ws) q, sort_by = map_option (strip_with ws) sb,
            sort_order = map_option (strip_with ws) so, page = pg, limit = lmt\<rparr>" s]
    by (simp add: router_get_books_def new_BookFilters_def Let_def strip_with_all_ws [OF w])
  show "router_get_books ws a y (Some v) sb so pg lmt s = router_get_books ws a y None sb so pg lmt s"
    using get_books_search_empty
      [of "\<lparr>author_filter = map_option (strip_with ws) a, year_filter = y,
            search = None, sort_by = map_option (strip_with ws) sb,
            sort_order = map_option (strip_with ws) so, page = pg, limit = lmt\<rparr>" s]
    by (simp add: router_get_books_def new_BookFilters_def Let_def strip_with_all_ws [OF w])
next
  assume w: "\<forall>c\<in>set v. isspace c"
  have n: "normalize_string v = []" using w by (rule normalize_all_ws)
  have "filter_by_author (Some v) bs = bs" for bs
    by (simp add: filter_by_author_eq n str_in_Nil)
  then show "get_books (filters\<lparr>author_filter := Some v\<rparr>) s
          = get_books (filters\<lparr>author_filter := None\<rparr>) s"
    by (simp add: get_books_def sorted_books_def filtered_books_def, simp add: filter_by_author_def)
  have "filter_by_search (Some v) bs = bs" for bs
    by (simp add: filter_by_search_eq n str_in_Nil)
  then show "get_books (filters\<lparr>search := Some v\<rparr>) s = get_books (filters\<lparr>search := None\<rparr>) s"
    by (simp add: get_books_def sorted_books_def filtered_books_def, simp add: filter_by_search_def)
qed

lemma sample_filters:
  "new_BookFilters isspace None None None (Some ''year'') (Some ''asc'') 1 10 = Inr (by_year ''asc'')"
proof -
  have "strip_with isspace ''year'' = ''year''" "strip_with isspace ''asc'' = ''asc''"
    by code_simp+
  then show ?thesis by (simp add: new_BookFilters_def by_year_def)
qed

theorem falsy_filters_absent_witness:
  "router_get_books isspace (Some ''   '') (Some 0) (Some '' '') (Some ''year'') (Some ''asc'') 1 10
     sample_repository
   = Inr \<lparr>items = [with_id 1 clean_code, with_id 3 refactoring, with_id 2 clean_coder],
          total = 3, page_no = 1, page_limit = 10, has_next = False, has_prev = False\<rparr>"
proof -
  have w3: "\<forall>c\<in>set ''   ''. isspace c" and w1: "\<forall>c\<in>set '' ''. isspace c"
    by (simp_all add: isspace_def)
  have "router_get_books isspace (Some ''   '') (Some 0) (Some '' '') (Some ''year'') (Some ''asc'') 1 10
          sample_repository
        = router_get_books isspace None (Some 0) (Some '' '') (Some ''year'') (Some ''asc'') 1 10
          sample_repository"
    using falsy_filters_absent [where ws = isspace and v = "''   ''" and y = "Some 0"
        and q = "Some '' ''" and sb = "Some ''year''" and so = "Some ''asc''" and pg = 1
        and lmt = 10 and s = sample_repository] w3
    by blast
  also have "\<dots> = router_get_books isspace None (Some 0) None (Some ''year'') (Some ''asc'') 1 10
          sample_repository"
    using falsy_filters_absent [where ws = isspace and v = "'' ''" and y = "Some 0"
        and a = None and sb = "Some ''year''" and so = "Some ''asc''" and pg = 1
        and lmt = 10 and s = sample_repository] w1
    by blast
  also have "\<dots> = router_get_books isspace None None None (Some ''year'') (Some ''asc'') 1 10
          sample_repository"
    using falsy_filters_absent [where ws = isspace and a = None and q = None
        and sb = "Some ''year''" and so = "Some ''asc''" and pg = 1
        and lmt = 10 and s = sample_repository]
    by blast
  also have "\<dots> = get_books (by_year ''asc'') sample_repository"
    by (simp add: router_get_books_def sample_filters)
  also have "\<dots> = Inr \<lparr>items = [with_id 1 clean_code, with_id 3 refactoring, with_id 2 clean_coder],
          total = 3, page_no = 1, page_limit = 10, has_next = False, has_prev = False\<rparr>"
  proof -
    have "page (by_year ''asc'') = 1" "limit (by_year ''asc'') = 10"
      by (simp_all add: by_year_def)
    then show ?thesis
      by (simp add: get_books_def sample_sorted_asc paginate_first_page)
  qed
  finally show ?thesis .
qed

end
